theory Spec2Isabelle
  imports Main "HOL-Library.Word"
begin

unbundle bit_operations_syntax

section \<open>The boundary scanner of simdutf_wrapper.cpp\<close>

text \<open>
  A buffer is the list of its bytes. The C function receives a pointer and a
  \<open>size_t length\<close>; reading \<open>buffer[i]\<close> outside the bytes the caller owns is
  undefined behaviour, which the model makes a value: \<open>byte_at\<close> gives \<open>None\<close>
  there and the scanner passes it on. Offsets are natural numbers: the source
  guards every subtraction (\<open>length - 1\<close> after \<open>length == 0\<close> has returned,
  \<open>length - 4\<close> under \<open>length > 4\<close>, \<open>i--\<close> under \<open>i > check_start\<close>,
  \<open>length - i\<close> with \<open>i < length\<close>), so no \<open>size_t\<close> operation wraps.
\<close>

type_synonym byte = "8 word"

definition byte_at :: "byte list \<Rightarrow> nat \<Rightarrow> byte option" where
  "byte_at buffer i = (if i < length buffer then Some (buffer ! i) else None)"

text \<open>
  Lines 52 to 64: the expected sequence length of a byte that is not a
  continuation byte; \<open>None\<close> is the branch `invalid lead byte'.
\<close>

definition seq_len :: "byte \<Rightarrow> nat option" where
  "seq_len b =
     (if b < 0x80 then Some 1
      else if b AND 0xE0 = 0xC0 then Some 2
      else if b AND 0xF0 = 0xE0 then Some 3
      else if b AND 0xF8 = 0xF0 then Some 4
      else None)"

text \<open>
  Lines 45 to 79: the loop \<open>for (size_t i = length; i > check_start; )\<close>, with
  \<open>i\<close> the value of the loop variable at the loop test.
\<close>

function scan_back :: "byte list \<Rightarrow> nat \<Rightarrow> nat \<Rightarrow> nat \<Rightarrow> nat option" where
  "scan_back buffer len check_start i =
     (if i > check_start then
        (case byte_at buffer (i - 1) of
           None \<Rightarrow> None
         | Some b \<Rightarrow>
             if b AND 0xC0 \<noteq> 0x80 then
               (case seq_len b of
                  None \<Rightarrow> Some (i - 1)
                | Some n \<Rightarrow>
                    let available = len - (i - 1)
                    in if n \<le> available then Some len else Some (i - 1))
             else scan_back buffer len check_start (i - 1))
      else Some check_start)"
  by pat_completeness auto
termination
  by (relation "measure (\<lambda>(buffer, len, check_start, i). i)") auto

declare scan_back.simps [simp del]

definition buf_simdutf_utf8_find_boundary :: "byte list \<Rightarrow> nat \<Rightarrow> nat option" where
  "buf_simdutf_utf8_find_boundary buffer len =
     (if len = 0 then Some 0
      else case byte_at buffer (len - 1) of
             None \<Rightarrow> None
           | Some l \<Rightarrow>
               if l < 0x80 then Some len
               else let check_start = (if len > 4 then len - 4 else 0)
                    in scan_back buffer len check_start len)"


section \<open>The operations delegated to simdutf\<close>

text \<open>
  Modelled from the spec: \<open>simdutf::validate_utf8\<close>,
  \<open>simdutf::utf16_length_from_utf8\<close> and \<open>simdutf::convert_utf8_to_utf16le\<close>
  are called by the wrapper but defined in the simdutf library, which is not
  among the sources. The definitions below follow the specification: strict
  UTF-8 decoding (lead byte patterns \<open>0xxxxxxx\<close>, \<open>110xxxxx\<close>, \<open>1110xxxx\<close>,
  \<open>11110xxx\<close>, continuation bytes \<open>10xxxxxx\<close>, no overlong encoding, no
  surrogate code point, no truncated sequence), one UTF-16 code unit for a
  code point of the Basic Multilingual Plane and a surrogate pair above it.
\<close>

definition is_continuation :: "byte \<Rightarrow> bool" where
  "is_continuation b \<longleftrightarrow> b AND 0xC0 = 0x80"

text \<open>Modelled from the spec: the sequence length a lead byte announces.\<close>

definition lead_length :: "byte \<Rightarrow> nat option" where
  "lead_length b =
     (if b < 0x80 then Some 1
      else if b AND 0xE0 = 0xC0 then Some 2
      else if b AND 0xF0 = 0xE0 then Some 3
      else if b AND 0xF8 = 0xF0 then Some 4
      else None)"

text \<open>Modelled from the spec: the payload bits of a lead byte of an \<open>n\<close>-byte sequence.\<close>

definition lead_payload :: "nat \<Rightarrow> byte \<Rightarrow> nat" where
  "lead_payload n b =
     (if n = 1 then unat b
      else if n = 2 then unat (b AND 0x1F)
      else if n = 3 then unat (b AND 0x0F)
      else unat (b AND 0x07))"

text \<open>Modelled from the spec: the code point an encoded sequence denotes.\<close>

definition code_point :: "byte list \<Rightarrow> nat" where
  "code_point c =
     foldl (\<lambda>acc b. acc * 64 + unat (b AND 0x3F)) (lead_payload (length c) (hd c)) (tl c)"

text \<open>
  Modelled from the spec: the smallest code point that needs \<open>n\<close> bytes (a
  smaller one encoded in \<open>n\<close> bytes is an overlong form), and the legal Unicode
  scalar values.
\<close>

definition min_scalar :: "nat \<Rightarrow> nat" where
  "min_scalar n = (if n = 1 then 0 else if n = 2 then 0x80 else if n = 3 then 0x800 else 0x10000)"

definition legal_scalar :: "nat \<Rightarrow> nat \<Rightarrow> bool" where
  "legal_scalar n cp \<longleftrightarrow>
     min_scalar n \<le> cp \<and> cp \<le> 0x10FFFF \<and> \<not> (0xD800 \<le> cp \<and> cp \<le> 0xDFFF)"

text \<open>
  Modelled from the spec: strict decoding of the code point at the head of a
  byte sequence; the result is the code point and the bytes after it, \<open>None\<close>
  when the head is not a well-formed sequence.
\<close>

definition decode_one :: "byte list \<Rightarrow> (nat \<times> byte list) option" where
  "decode_one bs =
     (case bs of
        [] \<Rightarrow> None
      | b0 # _ \<Rightarrow>
          (case lead_length b0 of
             None \<Rightarrow> None
           | Some n \<Rightarrow>
               if length bs < n then None
               else let c = take n bs
                    in if list_all is_continuation (tl c) \<and> legal_scalar n (code_point c)
                       then Some (code_point c, drop n bs)
                       else None))"

function decode_utf8 :: "byte list \<Rightarrow> nat list option" where
  "decode_utf8 [] = Some []"
| "decode_utf8 (b # bs) =
     (case decode_one (b # bs) of
        None \<Rightarrow> None
      | Some (cp, rest) \<Rightarrow> map_option ((#) cp) (decode_utf8 rest))"
  by pat_completeness auto
termination
proof (relation "measure length")
  fix b :: byte and bs x2 and cp :: nat and rest
  assume "decode_one (b # bs) = Some x2" "(cp, rest) = x2"
  then have "decode_one (b # bs) = Some (cp, rest)" by simp
  then have "length rest < length (b # bs)"
    by (auto simp: decode_one_def lead_length_def Let_def split: option.splits if_splits)
  then show "(rest, b # bs) \<in> measure length" by simp
qed simp

text \<open>Modelled from the spec: the Validator.\<close>

definition simdutf_validate_utf8 :: "byte list \<Rightarrow> bool" where
  "simdutf_validate_utf8 bs \<longleftrightarrow> decode_utf8 bs \<noteq> None"

text \<open>
  Lines 10 to 12: the wrapper hands pointer and length to the library and
  turns the answer into 1 or 0. The bytes the pointer and the length denote
  are \<open>take len buf\<close>; a length beyond the buffer is undefined behaviour (\<open>None\<close>).
\<close>

definition buf_simdutf_validate_utf8 :: "byte list \<Rightarrow> nat \<Rightarrow> int option" where
  "buf_simdutf_validate_utf8 buf len =
     (if len \<le> length buf
      then Some (if simdutf_validate_utf8 (take len buf) then 1 else 0)
      else None)"

text \<open>
  Modelled from the spec: the Size Estimator. A code point above the Basic
  Multilingual Plane counts as 2 units, every other one as 1; on input that
  is not valid UTF-8 the result is not specified (\<open>None\<close>).
\<close>

definition units_needed :: "nat \<Rightarrow> nat" where
  "units_needed cp = (if cp > 0xFFFF then 2 else 1)"

definition simdutf_utf16_length_from_utf8 :: "byte list \<Rightarrow> nat option" where
  "simdutf_utf16_length_from_utf8 input =
     (case decode_utf8 input of
        None \<Rightarrow> None
      | Some cps \<Rightarrow> Some (sum_list (map units_needed cps)))"

text \<open>
  Modelled from the spec: the Transcoder. Each code point is re-encoded as
  one code unit, or as a surrogate pair from U+10000 on, and the units are
  written one after the other into the caller's buffer from index 0. The
  result is the number of units written and the buffer after the writes.
  A write beyond the capacity of the buffer, and input that is not valid
  UTF-8, are precondition violations with unspecified behaviour (\<open>None\<close>).
\<close>

definition encode_utf16 :: "nat \<Rightarrow> 16 word list" where
  "encode_utf16 cp =
     (if cp \<ge> 0x10000
      then let v = cp - 0x10000
           in [0xD800 + of_nat (v div 0x400), 0xDC00 + of_nat (v mod 0x400)]
      else [of_nat cp])"

fun write_units :: "16 word list \<Rightarrow> nat \<Rightarrow> 16 word list \<Rightarrow> (nat \<times> 16 word list) option" where
  "write_units [] pos output = Some (pos, output)"
| "write_units (u # us) pos output =
     (if pos < length output then write_units us (Suc pos) (output[pos := u]) else None)"

fun convert_code_points :: "nat list \<Rightarrow> nat \<Rightarrow> 16 word list \<Rightarrow> (nat \<times> 16 word list) option" where
  "convert_code_points [] pos output = Some (pos, output)"
| "convert_code_points (cp # cps) pos output =
     (case write_units (encode_utf16 cp) pos output of
        None \<Rightarrow> None
      | Some (pos', output') \<Rightarrow> convert_code_points cps pos' output')"

definition simdutf_convert_utf8_to_utf16le ::
  "byte list \<Rightarrow> 16 word list \<Rightarrow> (nat \<times> 16 word list) option" where
  "simdutf_convert_utf8_to_utf16le input output =
     (case decode_utf8 input of
        None \<Rightarrow> None
      | Some cps \<Rightarrow> convert_code_points cps 0 output)"

text \<open>Lines 14 to 24: the two wrappers pass their arguments on unchanged.\<close>

definition buf_simdutf_convert_utf8_to_utf16le ::
  "byte list \<Rightarrow> nat \<Rightarrow> 16 word list \<Rightarrow> (nat \<times> 16 word list) option" where
  "buf_simdutf_convert_utf8_to_utf16le input len output =
     (if len \<le> length input then simdutf_convert_utf8_to_utf16le (take len input) output
      else None)"

definition buf_simdutf_utf16_length_from_utf8 :: "byte list \<Rightarrow> nat \<Rightarrow> nat option" where
  "buf_simdutf_utf16_length_from_utf8 input len =
     (if len \<le> length input then simdutf_utf16_length_from_utf8 (take len input) else None)"


section \<open>Properties of a chunk's tail\<close>

text \<open>
  The predicates in which the claims about the final bytes of a prefix are
  stated. A byte is an invalid lead byte when it is neither a continuation
  byte nor of one of the four lead patterns. The tail window of a prefix is
  its last 4 bytes (all of it when it is shorter).
\<close>

definition invalid_lead :: "byte \<Rightarrow> bool" where
  "invalid_lead b \<longleftrightarrow> b AND 0xC0 \<noteq> 0x80 \<and> seq_len b = None"

definition has_invalid_lead_in_tail :: "byte list \<Rightarrow> bool" where
  "has_invalid_lead_in_tail p \<longleftrightarrow> (\<exists>b \<in> set (drop (length p - 4) p). invalid_lead b)"

text \<open>
  \<open>last_lead_at p i\<close>: index \<open>i\<close> lies in the tail window of \<open>p\<close>, the byte
  there is not a continuation byte and every byte after it is one.
\<close>

definition last_lead_at :: "byte list \<Rightarrow> nat \<Rightarrow> bool" where
  "last_lead_at p i \<longleftrightarrow>
     i < length p \<and> length p - i \<le> 4 \<and> p ! i AND 0xC0 \<noteq> 0x80 \<and>
     (\<forall>c \<in> set (drop (Suc i) p). c AND 0xC0 = 0x80)"

text \<open>
  A prefix ends in a truncated sequence when its last lead byte announces
  more bytes than follow; its tail is complete when the prefix is empty or
  its last lead byte is of a lead pattern and announces no more bytes than
  are there.
\<close>

definition truncated_tail :: "byte list \<Rightarrow> bool" where
  "truncated_tail p \<longleftrightarrow>
     (\<exists>i \<in> {..<length p}. last_lead_at p i \<and>
        (case seq_len (p ! i) of None \<Rightarrow> False | Some n \<Rightarrow> length p - i < n))"

definition tail_complete :: "byte list \<Rightarrow> bool" where
  "tail_complete p \<longleftrightarrow>
     p = [] \<or>
     (\<exists>i \<in> {..<length p}. last_lead_at p i \<and>
        (case seq_len (p ! i) of None \<Rightarrow> False | Some n \<Rightarrow> n \<le> length p - i))"


section \<open>Bit patterns of a byte\<close>

lemma all8: "(\<forall>n<8. P n) \<longleftrightarrow> P (0::nat) \<and> P 1 \<and> P 2 \<and> P 3 \<and> P 4 \<and> P 5 \<and> P 6 \<and> P 7"
  by (auto simp: eval_nat_numeral All_less_Suc)

lemma byte_eq_bits: "(a::byte) = b \<longleftrightarrow> (\<forall>n<8. bit a n = bit b n)"
  by (auto intro: bit_word_eqI)

lemma cont_bits: "(b::byte) AND 0xC0 = 0x80 \<longleftrightarrow> bit b 7 \<and> \<not> bit b 6"
  unfolding byte_eq_bits all8 by (auto simp: bit_simps)

lemma lead2_bits: "(b::byte) AND 0xE0 = 0xC0 \<longleftrightarrow> bit b 7 \<and> bit b 6 \<and> \<not> bit b 5"
  unfolding byte_eq_bits all8 by (auto simp: bit_simps)

lemma lead3_bits: "(b::byte) AND 0xF0 = 0xE0 \<longleftrightarrow> bit b 7 \<and> bit b 6 \<and> bit b 5 \<and> \<not> bit b 4"
  unfolding byte_eq_bits all8 by (auto simp: bit_simps)

lemma lead4_bits:
  "(b::byte) AND 0xF8 = 0xF0 \<longleftrightarrow> bit b 7 \<and> bit b 6 \<and> bit b 5 \<and> bit b 4 \<and> \<not> bit b 3"
  unfolding byte_eq_bits all8 by (auto simp: bit_simps)

lemma ascii_bits: "(b::byte) < 0x80 \<longleftrightarrow> \<not> bit b 7"
proof -
  have "b < 2 ^ 7 \<longleftrightarrow> take_bit 7 b = b"
    using mask_eq_iff_w2p [of 7 b] by (simp add: take_bit_eq_mask word_size)
  also have "\<dots> \<longleftrightarrow> \<not> bit b 7"
    unfolding byte_eq_bits all8 by (auto simp: bit_simps)
  finally show ?thesis by simp
qed


section \<open>The backward scan\<close>

lemma scan_back_done:
  "\<not> check_start < i \<Longrightarrow> scan_back buffer len check_start i = Some check_start"
  by (subst scan_back.simps) simp

lemma scan_back_cont:
  assumes "check_start < i" "i \<le> length buffer" "buffer ! (i - 1) AND 0xC0 = 0x80"
  shows "scan_back buffer len check_start i = scan_back buffer len check_start (i - 1)"
proof -
  from assms have "i - 1 < length buffer" by linarith
  with assms show ?thesis
    by (subst scan_back.simps) (simp add: byte_at_def)
qed

lemma scan_back_stop:
  assumes "check_start < i" "i \<le> length buffer" "buffer ! (i - 1) AND 0xC0 \<noteq> 0x80"
  shows "scan_back buffer len check_start i =
           (case seq_len (buffer ! (i - 1)) of
              None \<Rightarrow> Some (i - 1)
            | Some n \<Rightarrow> if n \<le> len - (i - 1) then Some len else Some (i - 1))"
proof -
  from assms have "i - 1 < length buffer" by linarith
  with assms show ?thesis
    by (subst scan_back.simps) (simp add: byte_at_def Let_def split: option.splits)
qed

lemma scan_back_skip:
  assumes "k \<le> i" "check_start \<le> k" "i \<le> length buffer"
    and "\<forall>j. k \<le> j \<and> j < i \<longrightarrow> buffer ! j AND 0xC0 = 0x80"
  shows "scan_back buffer len check_start i = scan_back buffer len check_start k"
  using assms
proof (induction "i - k" arbitrary: i)
  case 0
  then show ?case by simp
next
  case (Suc d)
  then have i: "check_start < i" "k \<le> i - 1" "i - 1 < i" "i - 1 \<le> length buffer" "d = i - 1 - k"
    by linarith+
  with Suc.prems have c: "buffer ! (i - 1) AND 0xC0 = 0x80" by blast
  have "scan_back buffer len check_start i = scan_back buffer len check_start (i - 1)"
    using i c Suc.prems by (simp add: scan_back_cont)
  also have "\<dots> = scan_back buffer len check_start k"
    using Suc.prems i by (intro Suc.hyps) auto
  finally show ?case .
qed

lemma scan_back_range:
  assumes "i \<le> length buffer" "i \<le> len" "check_start \<le> len"
  shows "\<exists>b. scan_back buffer len check_start i = Some b \<and> check_start \<le> b \<and> b \<le> len"
  using assms
proof (induction i)
  case 0
  then show ?case by (simp add: scan_back_done)
next
  case (Suc i)
  show ?case
  proof (cases "check_start < Suc i")
    case False
    with Suc.prems show ?thesis by (simp add: scan_back_done)
  next
    case True
    show ?thesis
    proof (cases "buffer ! i AND 0xC0 = 0x80")
      case False
      with True Suc.prems show ?thesis
        by (auto simp: scan_back_stop split: option.splits)
    next
      case c: True
      have "scan_back buffer len check_start (Suc i) = scan_back buffer len check_start i"
        using True c Suc.prems scan_back_cont [of check_start "Suc i" buffer len] by simp
      moreover have "\<exists>b. scan_back buffer len check_start i = Some b \<and> check_start \<le> b \<and> b \<le> len"
        using Suc.prems by (intro Suc.IH) auto
      ultimately show ?thesis by auto
    qed
  qed
qed

lemma scan_back_Some_range:
  assumes "scan_back buffer len check_start i = Some b" "i \<le> len" "check_start \<le> len"
  shows "check_start \<le> b \<and> b \<le> len"
  using assms
proof (induction i)
  case 0
  then show ?case by (simp add: scan_back_done)
next
  case (Suc i)
  show ?case
  proof (cases "check_start < Suc i")
    case False
    with Suc.prems show ?thesis by (simp add: scan_back_done)
  next
    case True
    from Suc.prems(1) True have inb: "i < length buffer"
      by (subst (asm) scan_back.simps) (simp add: byte_at_def split: if_splits)
    show ?thesis
    proof (cases "buffer ! i AND 0xC0 = 0x80")
      case False
      with True inb Suc.prems show ?thesis
        by (auto simp: scan_back_stop split: option.splits if_splits)
    next
      case c: True
      have "scan_back buffer len check_start (Suc i) = scan_back buffer len check_start i"
        using True c inb scan_back_cont [of check_start "Suc i" buffer len] by simp
      with Suc.prems show ?thesis by (intro Suc.IH) auto
    qed
  qed
qed


section \<open>The boundary scanner\<close>

lemma find_boundary_scan:
  assumes "0 < len" "len \<le> length buffer" "\<not> buffer ! (len - 1) < 0x80"
  shows "buf_simdutf_utf8_find_boundary buffer len = scan_back buffer len (len - 4) len"
proof -
  from assms have "len - 1 < length buffer" by linarith
  moreover have "(if 4 < len then len - 4 else 0) = len - 4" by simp
  ultimately show ?thesis
    using assms by (simp add: buf_simdutf_utf8_find_boundary_def byte_at_def)
qed

lemma find_boundary_ascii:
  assumes "0 < len" "len \<le> length buffer" "buffer ! (len - 1) < 0x80"
  shows "buf_simdutf_utf8_find_boundary buffer len = Some len"
proof -
  from assms have "len - 1 < length buffer" by linarith
  then show ?thesis
    using assms by (simp add: buf_simdutf_utf8_find_boundary_def byte_at_def)
qed

lemma find_boundary_range:
  assumes "len \<le> length buffer"
  shows "\<exists>b. buf_simdutf_utf8_find_boundary buffer len = Some b \<and> len - 4 \<le> b \<and> b \<le> len"
proof (cases "len = 0")
  case True
  then show ?thesis by (simp add: buf_simdutf_utf8_find_boundary_def)
next
  case False
  show ?thesis
  proof (cases "buffer ! (len - 1) < 0x80")
    case True
    with False assms show ?thesis by (simp add: find_boundary_ascii)
  next
    case hi: False
    with False assms show ?thesis
      using scan_back_range [of len buffer len "len - 4"] by (simp add: find_boundary_scan)
  qed
qed

lemma find_boundary_Some_range:
  assumes "buf_simdutf_utf8_find_boundary buffer len = Some b"
  shows "len - 4 \<le> b \<and> b \<le> len"
proof -
  have cs: "(if 4 < len then len - 4 else 0) = len - 4" by simp
  show ?thesis
    using assms scan_back_Some_range [of buffer len "len - 4" len b]
    unfolding buf_simdutf_utf8_find_boundary_def Let_def cs
    by (auto split: if_splits option.splits)
qed

lemma find_boundary_lead_at:
  assumes "len \<le> length buffer" "i < len" "len - i \<le> 4"
    and "buffer ! i AND 0xC0 \<noteq> 0x80"
    and "\<forall>j. i < j \<and> j < len \<longrightarrow> buffer ! j AND 0xC0 = 0x80"
  shows "buf_simdutf_utf8_find_boundary buffer len =
           (case seq_len (buffer ! i) of
              None \<Rightarrow> Some i
            | Some n \<Rightarrow> if n \<le> len - i then Some len else Some i)"
proof (cases "buffer ! (len - 1) < 0x80")
  case True
  have "i = len - 1"
  proof (rule ccontr)
    assume "i \<noteq> len - 1"
    with assms have "buffer ! (len - 1) AND 0xC0 = 0x80" by simp
    with True show False by (simp add: cont_bits ascii_bits)
  qed
  with True assms show ?thesis
    by (simp add: find_boundary_ascii seq_len_def)
next
  case False
  have "buf_simdutf_utf8_find_boundary buffer len = scan_back buffer len (len - 4) len"
    using assms False by (simp add: find_boundary_scan)
  also have "\<dots> = scan_back buffer len (len - 4) (Suc i)"
    using assms by (intro scan_back_skip) auto
  also have "\<dots> = (case seq_len (buffer ! i) of
              None \<Rightarrow> Some i
            | Some n \<Rightarrow> if n \<le> len - i then Some len else Some i)"
  proof -
    have "len - 4 < Suc i" "Suc i \<le> length buffer" using assms by linarith+
    then show ?thesis
      using assms(4) scan_back_stop [of "len - 4" "Suc i" buffer len]
      by (simp split: option.splits)
  qed
  finally show ?thesis .
qed

lemma find_boundary_all_cont:
  assumes "0 < len" "len \<le> length buffer"
    and "\<forall>j. len - 4 \<le> j \<and> j < len \<longrightarrow> buffer ! j AND 0xC0 = 0x80"
  shows "buf_simdutf_utf8_find_boundary buffer len = Some (len - 4)"
proof -
  from assms have "buffer ! (len - 1) AND 0xC0 = 0x80" by simp
  then have "\<not> buffer ! (len - 1) < 0x80" by (simp add: cont_bits ascii_bits)
  then have "buf_simdutf_utf8_find_boundary buffer len = scan_back buffer len (len - 4) len"
    using assms by (simp add: find_boundary_scan)
  also have "\<dots> = scan_back buffer len (len - 4) (len - 4)"
    using assms by (intro scan_back_skip) auto
  finally show ?thesis by (simp add: scan_back_done)
qed


section \<open>Range and totality of the boundary scanner\<close>

text \<open>
  Claim C5. On every buffer that holds at least \<open>len\<close> bytes the scanner
  returns a value: no read leaves the buffer. The value lies between
  \<open>max 0 (len - 4)\<close> (truncated subtraction on natural numbers) and \<open>len\<close>, on
  valid and on invalid input alike, and it is 0 for \<open>len = 0\<close>.
\<close>

theorem find_boundary_total_in_range:
  assumes "len \<le> length buffer"
  shows "(\<exists>b. buf_simdutf_utf8_find_boundary buffer len = Some b \<and>
              0 \<le> b \<and> b \<le> len \<and> max 0 (len - 4) \<le> b) \<and>
         buf_simdutf_utf8_find_boundary buffer 0 = Some 0"
proof -
  from find_boundary_range [OF assms] obtain b
    where "buf_simdutf_utf8_find_boundary buffer len = Some b" "len - 4 \<le> b" "b \<le> len"
    by blast
  moreover have "buf_simdutf_utf8_find_boundary buffer 0 = Some 0"
    by (simp add: buf_simdutf_utf8_find_boundary_def)
  ultimately show ?thesis by simp
qed

theorem find_boundary_total_in_range_witness:
  "(5::nat) \<le> length [0xF0, 0x80, 0x80, 0x80, 0x80 :: byte] \<and>
   (\<exists>b. buf_simdutf_utf8_find_boundary [0xF0, 0x80, 0x80, 0x80, 0x80] 5 = Some b \<and>
        0 \<le> b \<and> b \<le> 5 \<and> max 0 (5 - 4) \<le> b) \<and>
   buf_simdutf_utf8_find_boundary [0xF0, 0x80, 0x80, 0x80, 0x80] 0 = Some 0"
  using find_boundary_total_in_range [of 5 "[0xF0, 0x80, 0x80, 0x80, 0x80]"] by simp

text \<open>
  Claim C6. When the last byte of a non-empty chunk is below \<open>0x80\<close>, the
  scanner returns the length, whatever the earlier bytes are.
\<close>

theorem find_boundary_ascii_fast_path:
  assumes "0 < len" "len \<le> length buffer" "buffer ! (len - 1) < 0x80"
  shows "buf_simdutf_utf8_find_boundary buffer len = Some len"
  using assms by (rule find_boundary_ascii)

theorem find_boundary_ascii_fast_path_witness:
  "0 < (3::nat) \<and> 3 \<le> length [0xFF, 0xE2, 0x41 :: byte] \<and>
   [0xFF, 0xE2, 0x41 :: byte] ! (3 - 1) < 0x80 \<and>
   buf_simdutf_utf8_find_boundary [0xFF, 0xE2, 0x41] 3 = Some 3"
  using find_boundary_ascii_fast_path [of 3 "[0xFF, 0xE2, 0x41]"] by simp

text \<open>
  Claim C7. Let \<open>i\<close> be the index, within the last 4 bytes, of the first byte
  met on the way back from \<open>len - 1\<close> that is not a continuation byte. When
  that byte is of none of the lead patterns (not below \<open>0x80\<close>, not \<open>110xxxxx\<close>,
  not \<open>1110xxxx\<close>, not \<open>11110xxx\<close>), the scanner returns \<open>i\<close>. The last byte of
  such a chunk is never below \<open>0x80\<close>: it is a continuation byte or byte \<open>i\<close>
  itself.
\<close>

theorem find_boundary_invalid_lead:
  assumes "len \<le> length buffer" "i < len" "max 0 (len - 4) \<le> i"
    and "buffer ! i AND 0xC0 \<noteq> 0x80"
    and "\<forall>j. i < j \<and> j < len \<longrightarrow> buffer ! j AND 0xC0 = 0x80"
    and "\<not> buffer ! i < 0x80" "buffer ! i AND 0xE0 \<noteq> 0xC0"
      "buffer ! i AND 0xF0 \<noteq> 0xE0" "buffer ! i AND 0xF8 \<noteq> 0xF0"
  shows "buf_simdutf_utf8_find_boundary buffer len = Some i"
proof -
  from assms have "seq_len (buffer ! i) = None" by (simp add: seq_len_def)
  moreover from assms have "len - i \<le> 4" by simp
  ultimately show ?thesis
    using assms find_boundary_lead_at [of len buffer i] by simp
qed

theorem find_boundary_invalid_lead_witness:
  "(4::nat) \<le> length [0x61, 0xFF, 0x80, 0x80 :: byte] \<and> (1::nat) < 4 \<and> max 0 (4 - 4) \<le> (1::nat) \<and>
   [0x61, 0xFF, 0x80, 0x80 :: byte] ! 1 AND 0xC0 \<noteq> 0x80 \<and>
   [0x61, 0xFF, 0x80, 0x80 :: byte] ! 2 AND 0xC0 = 0x80 \<and>
   [0x61, 0xFF, 0x80, 0x80 :: byte] ! 3 AND 0xC0 = 0x80 \<and>
   buf_simdutf_utf8_find_boundary [0x61, 0xFF, 0x80, 0x80] 4 = Some 1"
proof -
  let ?buf = "[0x61, 0xFF, 0x80, 0x80 :: byte]"
  have conts: "\<forall>j. 1 < j \<and> j < 4 \<longrightarrow> ?buf ! j AND 0xC0 = 0x80"
  proof (intro allI impI)
    fix j :: nat
    assume "1 < j \<and> j < 4"
    then have "j = 2 \<or> j = 3" by arith
    then show "?buf ! j AND 0xC0 = 0x80" by auto
  qed
  have "buf_simdutf_utf8_find_boundary ?buf 4 = Some 1"
    using conts by (intro find_boundary_invalid_lead) simp_all
  then show ?thesis by simp
qed

text \<open>
  Claim C8. When every byte of the window \<open>[max 0 (len - 4), len)\<close> of a
  non-empty chunk is a continuation byte, the scanner returns the start of
  the window: \<open>len - 4\<close>, and 0 for a chunk of at most 4 bytes.
\<close>

theorem find_boundary_all_continuation:
  assumes "0 < len" "len \<le> length buffer"
    and "\<forall>j. max 0 (len - 4) \<le> j \<and> j < len \<longrightarrow> buffer ! j AND 0xC0 = 0x80"
  shows "buf_simdutf_utf8_find_boundary buffer len = Some (if len > 4 then len - 4 else 0)"
  using assms find_boundary_all_cont [of len buffer] by simp

theorem find_boundary_all_continuation_witness:
  "0 < (3::nat) \<and> 3 \<le> length [0x80, 0xBF, 0x9A :: byte] \<and>
   [0x80, 0xBF, 0x9A :: byte] ! 0 AND 0xC0 = 0x80 \<and>
   [0x80, 0xBF, 0x9A :: byte] ! 1 AND 0xC0 = 0x80 \<and>
   [0x80, 0xBF, 0x9A :: byte] ! 2 AND 0xC0 = 0x80 \<and>
   buf_simdutf_utf8_find_boundary [0x80, 0xBF, 0x9A] 3 = Some (if (3::nat) > 4 then 3 - 4 else 0)"
proof -
  let ?buf = "[0x80, 0xBF, 0x9A :: byte]"
  have conts: "\<forall>j. max 0 (3 - 4) \<le> j \<and> j < 3 \<longrightarrow> ?buf ! j AND 0xC0 = 0x80"
  proof (intro allI impI)
    fix j :: nat
    assume "max 0 (3 - 4) \<le> j \<and> j < 3"
    then have "j = 0 \<or> j = 1 \<or> j = 2" by arith
    then show "?buf ! j AND 0xC0 = 0x80" by auto
  qed
  have "buf_simdutf_utf8_find_boundary ?buf 3 = Some (if (3::nat) > 4 then 3 - 4 else 0)"
    using conts by (intro find_boundary_all_continuation) simp_all
  then show ?thesis by simp
qed

text \<open>
  Claim C10. Whenever the scanner returns a boundary below the length, at
  most 4 bytes are held back.
\<close>

theorem find_boundary_holds_back_at_most_4:
  assumes "buf_simdutf_utf8_find_boundary buffer len = Some b" "b < len"
  shows "len - b \<le> 4"
  using find_boundary_Some_range [OF assms(1)] by linarith

theorem find_boundary_holds_back_at_most_4_witness:
  "buf_simdutf_utf8_find_boundary [0x61, 0x62, 0x63, 0x64, 0x65, 0xF0, 0x9F, 0x98] 8 = Some 5 \<and>
   (5::nat) < 8 \<and> (8::nat) - 5 \<le> 4"
proof -
  let ?buf = "[0x61, 0x62, 0x63, 0x64, 0x65, 0xF0, 0x9F, 0x98 :: byte]"
  have r: "buf_simdutf_utf8_find_boundary ?buf 8 = Some 5"
    by (simp add: buf_simdutf_utf8_find_boundary_def byte_at_def scan_back.simps seq_len_def)
  from find_boundary_holds_back_at_most_4 [OF r] r show ?thesis by simp
qed

section \<open>Well-formed sequences and the places where a valid text can be cut\<close>

lemma lead_length_seq_len: "lead_length b = seq_len b"
  by (simp add: lead_length_def seq_len_def)

lemma seq_len_not_cont: "seq_len b = Some n \<Longrightarrow> b AND 0xC0 \<noteq> 0x80"
  by (auto simp: seq_len_def cont_bits ascii_bits lead2_bits lead3_bits lead4_bits split: if_splits)

lemma seq_len_range: "seq_len b = Some n \<Longrightarrow> 1 \<le> n \<and> n \<le> 4"
  by (auto simp: seq_len_def split: if_splits)

lemma decode_one_shape:
  assumes "decode_one bs = Some (cp, rest)"
  shows "\<exists>n. bs \<noteq> [] \<and> seq_len (hd bs) = Some n \<and> n \<le> length bs \<and> rest = drop n bs \<and>
             list_all is_continuation (tl (take n bs))"
  using assms
  by (cases bs) (auto simp: decode_one_def lead_length_seq_len Let_def split: option.splits if_splits)

lemma decode_one_append:
  assumes "decode_one bs = Some (cp, rest)"
  shows "decode_one (take (length bs - length rest) bs @ xs) = Some (cp, xs)"
proof -
  from decode_one_shape [OF assms] obtain n
    where n: "bs \<noteq> []" "seq_len (hd bs) = Some n" "n \<le> length bs" "rest = drop n bs"
    by blast
  from n seq_len_range have n1: "1 \<le> n" by blast
  from n have len: "length bs - length rest = n" by simp
  from n n1 obtain b bs' where bs: "bs = b # bs'" by (cases bs) auto
  have hd: "take n bs @ xs = b # (take (n - 1) bs' @ xs)"
    using n1 bs by (cases n) auto
  have tk: "take n (take n bs @ xs) = take n bs" using n by simp
  have dr: "drop n (take n bs @ xs) = xs" using n by simp
  have "decode_one (take n bs @ xs) = Some (cp, xs)"
    using assms n tk dr
    apply (subst (asm) decode_one_def)
    apply (subst decode_one_def)
    apply (simp only: hd list.case)
    apply (simp add: bs lead_length_seq_len Let_def split: if_splits)
    done
  with len show ?thesis by simp
qed

lemma valid_append_one:
  assumes "decode_one bs = Some (cp, rest)" "decode_utf8 xs \<noteq> None"
  shows "decode_utf8 (take (length bs - length rest) bs @ xs) \<noteq> None"
proof -
  from decode_one_shape [OF assms(1)] seq_len_range obtain n
    where "bs \<noteq> []" "1 \<le> n" "n \<le> length bs" "rest = drop n bs"
    by blast
  then obtain c cs where "take (length bs - length rest) bs @ xs = c # cs"
    by (cases bs; cases n) auto
  with decode_one_append [OF assms(1), of xs] assms(2) show ?thesis
    by (metis decode_utf8.simps(2) option.simps(5) case_prod_conv option.map_disc_iff)
qed

lemma valid_cut:
  assumes "decode_utf8 s \<noteq> None" "k \<le> length s"
  shows "\<exists>j\<le>k. decode_utf8 (take j s) \<noteq> None \<and>
           (j = k \<or> (\<exists>cp rest. decode_one (drop j s) = Some (cp, rest) \<and>
                       j < k \<and> k < length s - length rest))"
  using assms
proof (induction s arbitrary: k rule: decode_utf8.induct)
  case 1
  then show ?case by simp
next
  case (2 b bs)
  let ?s = "b # bs"
  from "2.prems"(1) obtain cp rest
    where d: "decode_one ?s = Some (cp, rest)" and v: "decode_utf8 rest \<noteq> None"
    by (auto split: option.splits)
  from decode_one_shape [OF d] seq_len_range obtain n
    where n: "1 \<le> n" "n \<le> length ?s" "rest = drop n ?s"
    by blast
  then have len: "length ?s - length rest = n" by simp
  show ?case
  proof (cases "k < n")
    case True
    show ?thesis
    proof (cases "k = 0")
      case True
      then show ?thesis by simp
    next
      case False
      with True d len have "decode_utf8 (take 0 ?s) \<noteq> None \<and>
          decode_one (drop 0 ?s) = Some (cp, rest) \<and> 0 < k \<and> k < length ?s - length rest"
        by simp
      then show ?thesis by blast
    qed
  next
    case False
    with n "2.prems"(2) have "k - n \<le> length rest" by simp
    from "2.IH" [OF d refl v this] obtain j
      where j: "j \<le> k - n" "decode_utf8 (take j rest) \<noteq> None"
        "j = k - n \<or> (\<exists>cp' rest'. decode_one (drop j rest) = Some (cp', rest') \<and>
                       j < k - n \<and> k - n < length rest - length rest')"
      by blast
    have tk: "take (n + j) ?s = take (length ?s - length rest) ?s @ take j rest"
      using n len by (simp add: take_add)
    have dr: "drop (n + j) ?s = drop j rest"
      using n by (simp add: add.commute)
    have "decode_utf8 (take (n + j) ?s) \<noteq> None"
      unfolding tk using d j(2) by (rule valid_append_one)
    moreover have "n + j \<le> k" using j(1) False by simp
    moreover have "n + j = k \<or> (\<exists>cp' rest'. decode_one (drop (n + j) ?s) = Some (cp', rest') \<and>
                       n + j < k \<and> k < length ?s - length rest')"
    proof (cases "j = k - n")
      case True
      with False show ?thesis by simp
    next
      case nj: False
      with j(3) obtain cp' rest'
        where "decode_one (drop j rest) = Some (cp', rest')" "j < k - n"
          "k - n < length rest - length rest'"
        by blast
      moreover have "length rest = length ?s - n" using n by simp
      ultimately have "decode_one (drop (n + j) ?s) = Some (cp', rest') \<and>
          n + j < k \<and> k < length ?s - length rest'"
        unfolding dr by linarith
      then show ?thesis by blast
    qed
    ultimately show ?thesis by blast
  qed
qed

lemma valid_last:
  assumes "decode_utf8 s \<noteq> None" "s \<noteq> []"
  shows "\<exists>j<length s. \<exists>cp. decode_one (drop j s) = Some (cp, [])"
  using assms
proof (induction s rule: decode_utf8.induct)
  case 1
  then show ?case by simp
next
  case (2 b bs)
  let ?s = "b # bs"
  from "2.prems"(1) obtain cp rest
    where d: "decode_one ?s = Some (cp, rest)" and v: "decode_utf8 rest \<noteq> None"
    by (auto split: option.splits)
  show ?case
  proof (cases "rest = []")
    case True
    with d have "0 < length ?s \<and> decode_one (drop 0 ?s) = Some (cp, [])" by simp
    then show ?thesis by blast
  next
    case False
    from decode_one_shape [OF d] obtain n
      where n: "n \<le> length ?s" "rest = drop n ?s"
      by blast
    from "2.IH" [OF d refl v False] obtain j cp'
      where j: "j < length rest" "decode_one (drop j rest) = Some (cp', [])"
      by blast
    have "drop (n + j) ?s = drop j rest" using n by (simp add: add.commute)
    moreover have "n + j < length ?s" using n j(1) by simp
    ultimately show ?thesis using j(2) by metis
  qed
qed

lemma find_boundary_at_code_point:
  assumes "decode_one (drop i s) = Some (cp, rest)" "i < k" "k \<le> length s - length rest"
  shows "buf_simdutf_utf8_find_boundary (take k s) k =
           (if k = length s - length rest then Some k else Some i)"
proof -
  from decode_one_shape [OF assms(1)] obtain n
    where n: "drop i s \<noteq> []" "seq_len (hd (drop i s)) = Some n" "n \<le> length (drop i s)"
      "rest = drop n (drop i s)" "list_all is_continuation (tl (take n (drop i s)))"
    by blast
  from n(1) have i: "i < length s" by simp
  then have hd: "hd (drop i s) = s ! i" by (simp add: hd_drop_conv_nth)
  from n(3,4) i have end_eq: "length s - length rest = i + n" by simp
  with assms have k: "k \<le> i + n" "k \<le> length s" by simp_all
  from seq_len_range n(2) have n4: "n \<le> 4" by blast
  let ?buf = "take k s"
  have lead: "?buf ! i AND 0xC0 \<noteq> 0x80"
    using assms(2) n(2) hd seq_len_not_cont by simp
  have conts: "\<forall>j. i < j \<and> j < k \<longrightarrow> ?buf ! j AND 0xC0 = 0x80"
  proof (intro allI impI)
    fix j assume j: "i < j \<and> j < k"
    with k n(3) have in_tl: "j - i - 1 < length (tl (take n (drop i s)))" by simp arith
    with n(5) have "is_continuation (tl (take n (drop i s)) ! (j - i - 1))"
      by (simp add: list_all_length)
    moreover have "tl (take n (drop i s)) ! (j - i - 1) = s ! j"
    proof -
      from j have ji: "Suc (j - i - 1) = j - i" "i + (j - i) = j" by linarith+
      from j k have "j - i < n" by linarith
      have "tl (take n (drop i s)) ! (j - i - 1) = take n (drop i s) ! (j - i)"
        using in_tl ji(1) by (simp only: nth_tl)
      also have "\<dots> = drop i s ! (j - i)" using \<open>j - i < n\<close> by simp
      also have "\<dots> = s ! j" using j k ji(2) by simp
      finally show ?thesis .
    qed
    ultimately show "?buf ! j AND 0xC0 = 0x80"
      using j by (simp add: is_continuation_def)
  qed
  have "buf_simdutf_utf8_find_boundary ?buf k =
          (case seq_len (?buf ! i) of
              None \<Rightarrow> Some i
            | Some m \<Rightarrow> if m \<le> k - i then Some k else Some i)"
    using k assms(2) n4 lead conts by (intro find_boundary_lead_at) auto
  also have "?buf ! i = s ! i" using assms(2) by simp
  finally show ?thesis
    using n(2) hd end_eq k assms(2) by auto
qed


lemma find_boundary_valid:
  assumes "simdutf_validate_utf8 s"
  shows "buf_simdutf_utf8_find_boundary s (length s) = Some (length s)"
proof (cases "s = []")
  case True
  then show ?thesis by (simp add: buf_simdutf_utf8_find_boundary_def)
next
  case False
  with assms valid_last [of s] obtain j cp
    where j: "j < length s" "decode_one (drop j s) = Some (cp, [])"
    by (auto simp: simdutf_validate_utf8_def)
  from find_boundary_at_code_point [OF j(2) j(1)] show ?thesis by simp
qed

lemma valid_a_euro: "simdutf_validate_utf8 [0x61, 0xE2, 0x82, 0xAC]"
  by (simp add: simdutf_validate_utf8_def decode_one_def lead_length_def is_continuation_def
      legal_scalar_def min_scalar_def code_point_def lead_payload_def)

section \<open>The scanner on valid UTF-8\<close>

text \<open>
  Claim C3. On a byte sequence that is valid UTF-8 as a whole, the scanner
  returns the length: nothing of a fully valid chunk is held back.
\<close>

theorem find_boundary_valid_full:
  assumes "simdutf_validate_utf8 s"
  shows "buf_simdutf_utf8_find_boundary s (length s) = Some (length s)"
  using assms by (rule find_boundary_valid)

theorem find_boundary_valid_full_witness:
  "simdutf_validate_utf8 [0x61, 0xE2, 0x82, 0xAC] \<and>
   buf_simdutf_utf8_find_boundary [0x61, 0xE2, 0x82, 0xAC] (length [0x61, 0xE2, 0x82, 0xAC :: byte]) =
     Some (length [0x61, 0xE2, 0x82, 0xAC :: byte])"
  using find_boundary_valid_full [OF valid_a_euro] valid_a_euro by simp

text \<open>
  Claim C1. Let \<open>s = pre @ c @ post\<close> be valid UTF-8, where \<open>pre\<close> is the
  text before a code point (valid UTF-8 itself) and \<open>c\<close> are the bytes of that
  code point: decoding at \<open>c @ post\<close> consumes exactly \<open>c\<close>. For every
  \<open>k\<close> strictly inside \<open>c\<close>, which therefore has several bytes, the scanner on
  the first \<open>k\<close> bytes of \<open>s\<close> returns the offset at which \<open>c\<close> starts. On the
  bytes \<open>61 E2 82\<close> it returns 1.
\<close>

theorem find_boundary_cut_code_point:
  assumes "simdutf_validate_utf8 (pre @ c @ post)"
    and "simdutf_validate_utf8 pre"
    and "decode_one (c @ post) = Some (cp, post)"
    and "length pre < k" "k < length pre + length c"
  shows "buf_simdutf_utf8_find_boundary (take k (pre @ c @ post)) k = Some (length pre)"
proof -
  let ?s = "pre @ c @ post"
  have "decode_one (drop (length pre) ?s) = Some (cp, post)"
    using assms(3) by simp
  moreover have "k \<le> length ?s - length post" "k \<noteq> length ?s - length post"
    using assms(5) by simp_all
  ultimately show ?thesis
    using find_boundary_at_code_point [of "length pre" ?s cp post k] assms(4) by simp
qed

theorem find_boundary_cut_code_point_witness:
  "simdutf_validate_utf8 ([0x61] @ [0xE2, 0x82, 0xAC] @ []) \<and>
   simdutf_validate_utf8 [0x61] \<and>
   decode_one ([0xE2, 0x82, 0xAC] @ []) = Some (0x20AC, []) \<and>
   length [0x61 :: byte] < 3 \<and> 3 < length [0x61 :: byte] + length [0xE2, 0x82, 0xAC :: byte] \<and>
   take 3 ([0x61] @ [0xE2, 0x82, 0xAC] @ []) = [0x61, 0xE2, 0x82 :: byte] \<and>
   buf_simdutf_utf8_find_boundary [0x61, 0xE2, 0x82] 3 = Some 1"
proof -
  have v: "simdutf_validate_utf8 ([0x61] @ [0xE2, 0x82, 0xAC] @ [])"
    using valid_a_euro by simp
  have p: "simdutf_validate_utf8 [0x61]"
    by (simp add: simdutf_validate_utf8_def decode_one_def lead_length_def
        legal_scalar_def min_scalar_def code_point_def lead_payload_def)
  have d: "decode_one ([0xE2, 0x82, 0xAC] @ []) = Some (0x20AC, [])"
    by (simp add: decode_one_def lead_length_def is_continuation_def
        legal_scalar_def min_scalar_def code_point_def lead_payload_def)
  from find_boundary_cut_code_point [OF v p d, of 3] v p d show ?thesis by simp
qed

text \<open>
  Claim C2. Split a valid UTF-8 sequence \<open>s\<close> at any offset \<open>k\<close> and let \<open>b\<close> be
  the boundary the scanner returns for the first piece. Then the returned
  prefix, the held-back bytes and the second piece put together are \<open>s\<close> again,
  and the validator accepts the returned prefix.
\<close>

theorem chunk_reassembly:
  assumes "simdutf_validate_utf8 s" "k \<le> length s"
  shows "\<exists>b. buf_simdutf_utf8_find_boundary (take k s) k = Some b \<and>
             take b s @ drop b (take k s) @ drop k s = s \<and>
             buf_simdutf_validate_utf8 (take k s) b = Some 1"
proof -
  from assms valid_cut [of s k] obtain j
    where j: "j \<le> k" "decode_utf8 (take j s) \<noteq> None"
      "j = k \<or> (\<exists>cp rest. decode_one (drop j s) = Some (cp, rest) \<and>
                       j < k \<and> k < length s - length rest)"
    by (auto simp: simdutf_validate_utf8_def)
  have b: "buf_simdutf_utf8_find_boundary (take k s) k = Some j"
  proof (cases "j = k")
    case True
    with j(2) have "simdutf_validate_utf8 (take k s)" by (simp add: simdutf_validate_utf8_def)
    from find_boundary_valid [OF this] assms(2) True show ?thesis by simp
  next
    case False
    with j(3) obtain cp rest
      where "decode_one (drop j s) = Some (cp, rest)" "j < k" "k < length s - length rest"
      by blast
    with find_boundary_at_code_point [of j s cp rest k] show ?thesis by simp
  qed
  have "take j s @ drop j (take k s) @ drop k s = s"
    using j(1) by (metis append_take_drop_id append.assoc take_take min.absorb1)
  moreover have "buf_simdutf_validate_utf8 (take k s) j = Some 1"
    using j(1,2) assms(2)
    by (simp add: buf_simdutf_validate_utf8_def simdutf_validate_utf8_def min.absorb1)
  ultimately show ?thesis using b by blast
qed

theorem chunk_reassembly_witness:
  "simdutf_validate_utf8 [0x61, 0xE2, 0x82, 0xAC] \<and> (3::nat) \<le> length [0x61, 0xE2, 0x82, 0xAC :: byte] \<and>
   (\<exists>b. buf_simdutf_utf8_find_boundary (take 3 [0x61, 0xE2, 0x82, 0xAC]) 3 = Some b \<and>
        take b [0x61, 0xE2, 0x82, 0xAC] @ drop b (take 3 [0x61, 0xE2, 0x82, 0xAC]) @
          drop 3 [0x61, 0xE2, 0x82, 0xAC] = [0x61, 0xE2, 0x82, 0xAC :: byte] \<and>
        buf_simdutf_validate_utf8 (take 3 [0x61, 0xE2, 0x82, 0xAC]) b = Some 1)"
proof -
  have "(3::nat) \<le> length [0x61, 0xE2, 0x82, 0xAC :: byte]" by simp
  from chunk_reassembly [OF valid_a_euro this] valid_a_euro show ?thesis by simp
qed


section \<open>What the scanner guarantees about the tail on any input\<close>

lemma last_noncont_exists:
  assumes "\<exists>j::nat. a \<le> j \<and> j < m \<and> Q j"
  shows "\<exists>i. a \<le> i \<and> i < m \<and> Q i \<and> (\<forall>j. i < j \<and> j < m \<longrightarrow> \<not> Q j)"
  using assms
proof (induction m)
  case 0
  then show ?case by simp
next
  case (Suc m)
  show ?case
  proof (cases "Q m \<and> a \<le> m")
    case True
    then have "a \<le> m \<and> m < Suc m \<and> Q m \<and> (\<forall>j. m < j \<and> j < Suc m \<longrightarrow> \<not> Q j)" by auto
    then show ?thesis by blast
  next
    case False
    with Suc.prems have "\<exists>j. a \<le> j \<and> j < m \<and> Q j"
      by (metis less_Suc_eq)
    from Suc.IH [OF this] obtain i
      where i: "a \<le> i" "i < m" "Q i" "\<forall>j. i < j \<and> j < m \<longrightarrow> \<not> Q j"
      by blast
    with False have "\<forall>j. i < j \<and> j < Suc m \<longrightarrow> \<not> Q j"
      by (metis less_Suc_eq less_imp_le_nat le_trans)
    with i show ?thesis by (meson less_Suc_eq)
  qed
qed

lemma last_lead_at_take:
  assumes "len \<le> length buffer"
  shows "last_lead_at (take len buffer) i \<longleftrightarrow>
           i < len \<and> len - i \<le> 4 \<and> buffer ! i AND 0xC0 \<noteq> 0x80 \<and>
           (\<forall>j. i < j \<and> j < len \<longrightarrow> buffer ! j AND 0xC0 = 0x80)"
proof -
  let ?p = "take len buffer"
  have len: "length ?p = len" using assms by simp
  have "(\<forall>c \<in> set (drop (Suc i) ?p). c AND 0xC0 = 0x80) \<longleftrightarrow>
        (\<forall>j. i < j \<and> j < len \<longrightarrow> buffer ! j AND 0xC0 = 0x80)"
  proof
    assume l: "\<forall>c \<in> set (drop (Suc i) ?p). c AND 0xC0 = 0x80"
    show "\<forall>j. i < j \<and> j < len \<longrightarrow> buffer ! j AND 0xC0 = 0x80"
    proof (intro allI impI)
      fix j assume j: "i < j \<and> j < len"
      then have "?p ! j \<in> set (drop (Suc i) ?p)"
        using len by (auto simp: in_set_conv_nth intro!: exI [of _ "j - Suc i"])
      with l j show "buffer ! j AND 0xC0 = 0x80" by simp
    qed
  next
    assume r: "\<forall>j. i < j \<and> j < len \<longrightarrow> buffer ! j AND 0xC0 = 0x80"
    show "\<forall>c \<in> set (drop (Suc i) ?p). c AND 0xC0 = 0x80"
    proof
      fix c assume "c \<in> set (drop (Suc i) ?p)"
      then obtain m where m: "m < length (drop (Suc i) ?p)" "c = drop (Suc i) ?p ! m"
        by (auto simp: in_set_conv_nth)
      then have "Suc i + m < len" "c = buffer ! (Suc i + m)" using len by auto
      with r show "c AND 0xC0 = 0x80" by simp
    qed
  qed
  then show ?thesis
    using len by (auto simp: last_lead_at_def)
qed

lemma find_boundary_full_iff:
  assumes "len \<le> length buffer"
  shows "buf_simdutf_utf8_find_boundary buffer len = Some len \<longleftrightarrow>
           tail_complete (take len buffer)"
proof
  let ?p = "take len buffer"
  have len: "length ?p = len" using assms by simp
  assume full: "buf_simdutf_utf8_find_boundary buffer len = Some len"
  show "tail_complete ?p"
  proof (cases "len = 0")
    case True
    then show ?thesis by (simp add: tail_complete_def)
  next
    case False
    have "\<exists>j. len - 4 \<le> j \<and> j < len \<and> buffer ! j AND 0xC0 \<noteq> 0x80"
    proof (rule ccontr)
      assume "\<not> ?thesis"
      then have "\<forall>j. len - 4 \<le> j \<and> j < len \<longrightarrow> buffer ! j AND 0xC0 = 0x80" by blast
      with False assms have "buf_simdutf_utf8_find_boundary buffer len = Some (len - 4)"
        by (intro find_boundary_all_cont) auto
      with full False show False by simp
    qed
    from last_noncont_exists [OF this] obtain i
      where i: "len - 4 \<le> i" "i < len" "buffer ! i AND 0xC0 \<noteq> 0x80"
        "\<forall>j. i < j \<and> j < len \<longrightarrow> buffer ! j AND 0xC0 = 0x80"
      by auto
    then have lead: "last_lead_at ?p i"
      using assms by (simp add: last_lead_at_take)
    from i have "len - i \<le> 4" by linarith
    with i assms have "buf_simdutf_utf8_find_boundary buffer len =
           (case seq_len (buffer ! i) of
              None \<Rightarrow> Some i
            | Some n \<Rightarrow> if n \<le> len - i then Some len else Some i)"
      by (intro find_boundary_lead_at) auto
    with full i(2) have "case seq_len (?p ! i) of None \<Rightarrow> False | Some n \<Rightarrow> n \<le> length ?p - i"
      using len by (auto split: option.splits if_splits)
    with lead i(2) len show ?thesis
      unfolding tail_complete_def by (intro disjI2 bexI [of _ i]) simp_all
  qed
next
  let ?p = "take len buffer"
  have len: "length ?p = len" using assms by simp
  assume tc: "tail_complete ?p"
  show "buf_simdutf_utf8_find_boundary buffer len = Some len"
  proof (cases "len = 0")
    case True
    then show ?thesis by (simp add: buf_simdutf_utf8_find_boundary_def)
  next
    case False
    with tc len obtain i n
      where i: "i < len" "last_lead_at ?p i" "seq_len (buffer ! i) = Some n" "n \<le> len - i"
      unfolding tail_complete_def by (auto split: option.splits)
    from i(2) assms have l: "len - i \<le> 4" "buffer ! i AND 0xC0 \<noteq> 0x80"
        "\<forall>j. i < j \<and> j < len \<longrightarrow> buffer ! j AND 0xC0 = 0x80"
      by (simp_all add: last_lead_at_take)
    with i(1) assms have "buf_simdutf_utf8_find_boundary buffer len =
           (case seq_len (buffer ! i) of
              None \<Rightarrow> Some i
            | Some n \<Rightarrow> if n \<le> len - i then Some len else Some i)"
      by (intro find_boundary_lead_at) auto
    with i(1,3,4) show ?thesis by simp
  qed
qed


lemma last_lead_at_unique:
  assumes "last_lead_at p i" "last_lead_at p i'"
  shows "i = i'"
proof -
  have ix: "\<And>a. last_lead_at p a \<longleftrightarrow>
           a < length p \<and> length p - a \<le> 4 \<and> p ! a AND 0xC0 \<noteq> 0x80 \<and>
           (\<forall>j. a < j \<and> j < length p \<longrightarrow> p ! j AND 0xC0 = 0x80)"
    using last_lead_at_take [of "length p" p] by simp
  from assms have a: "i < length p" "p ! i AND 0xC0 \<noteq> 0x80"
      "\<forall>j. i < j \<and> j < length p \<longrightarrow> p ! j AND 0xC0 = 0x80"
    and b: "i' < length p" "p ! i' AND 0xC0 \<noteq> 0x80"
      "\<forall>j. i' < j \<and> j < length p \<longrightarrow> p ! j AND 0xC0 = 0x80"
    by (simp_all add: ix)
  show ?thesis
  proof (rule ccontr)
    assume "i \<noteq> i'"
    then consider "i < i'" | "i' < i" by linarith
    then show False
    proof cases
      case 1
      with a(3) b(1,2) show False by blast
    next
      case 2
      with b(3) a(1,2) show False by blast
    qed
  qed
qed

lemma find_boundary_at_last_lead:
  assumes "len \<le> length buffer" "last_lead_at (take len buffer) i"
  shows "buf_simdutf_utf8_find_boundary buffer len =
           (case seq_len (buffer ! i) of
              None \<Rightarrow> Some i
            | Some n \<Rightarrow> if n \<le> len - i then Some len else Some i)"
proof -
  from assms have "i < len" "len - i \<le> 4" "buffer ! i AND 0xC0 \<noteq> 0x80"
      "\<forall>j. i < j \<and> j < len \<longrightarrow> buffer ! j AND 0xC0 = 0x80"
    by (simp_all add: last_lead_at_take)
  with assms(1) show ?thesis by (intro find_boundary_lead_at) auto
qed

lemma find_boundary_cut_at_last_lead:
  assumes "len \<le> length buffer" "last_lead_at (take len buffer) i"
    and "invalid_lead (buffer ! i) \<or> truncated_tail (take len buffer)"
  shows "buf_simdutf_utf8_find_boundary buffer len = Some i"
proof -
  let ?p = "take len buffer"
  from assms(1,2) have i: "i < len" "length ?p = len" "?p ! i = buffer ! i"
    by (simp_all add: last_lead_at_take)
  have "case seq_len (buffer ! i) of None \<Rightarrow> True | Some n \<Rightarrow> len - i < n"
  proof (cases "invalid_lead (buffer ! i)")
    case True
    then show ?thesis by (simp add: invalid_lead_def)
  next
    case False
    with assms(3) obtain i'
      where i': "last_lead_at ?p i'"
        "case seq_len (?p ! i') of None \<Rightarrow> False | Some n \<Rightarrow> length ?p - i' < n"
      unfolding truncated_tail_def by blast
    with assms(2) have "i' = i" by (simp add: last_lead_at_unique)
    with i' i show ?thesis by (auto split: option.splits)
  qed
  with find_boundary_at_last_lead [OF assms(1,2)] show ?thesis
    by (auto split: option.splits)
qed

lemma find_boundary_same_tail:
  assumes "len \<le> length buffer" "len \<le> length buffer'"
    and "last_lead_at (take len buffer) i"
    and "drop i (take len buffer') = drop i (take len buffer)"
  shows "buf_simdutf_utf8_find_boundary buffer' len = buf_simdutf_utf8_find_boundary buffer len"
proof -
  from assms(1,3) have i: "i < len" by (simp add: last_lead_at_take)
  have same: "buffer' ! j = buffer ! j" if "i \<le> j" "j < len" for j
  proof -
    from that assms(2) have "buffer' ! j = drop i (take len buffer') ! (j - i)" by simp
    also have "\<dots> = drop i (take len buffer) ! (j - i)" by (simp only: assms(4))
    also have "\<dots> = buffer ! j" using that assms(1) by simp
    finally show ?thesis .
  qed
  from assms(1,3) have l: "len - i \<le> 4" "buffer ! i AND 0xC0 \<noteq> 0x80"
      "\<forall>j. i < j \<and> j < len \<longrightarrow> buffer ! j AND 0xC0 = 0x80"
    by (simp_all add: last_lead_at_take)
  with i same have "last_lead_at (take len buffer') i"
    using assms(2) by (simp add: last_lead_at_take)
  from find_boundary_at_last_lead [OF assms(2) this]
    find_boundary_at_last_lead [OF assms(1,3)] same [of i] i
  show ?thesis by simp
qed

lemma find_boundary_window_all_cont:
  assumes "len \<le> length buffer" "0 < len"
    and "\<forall>c \<in> set (drop (len - 4) (take len buffer)). c AND 0xC0 = 0x80"
  shows "buf_simdutf_utf8_find_boundary buffer len = Some (len - 4)"
proof -
  have "\<forall>j. len - 4 \<le> j \<and> j < len \<longrightarrow> buffer ! j AND 0xC0 = 0x80"
  proof (intro allI impI)
    fix j assume j: "len - 4 \<le> j \<and> j < len"
    with assms(1) have "take len buffer ! j \<in> set (drop (len - 4) (take len buffer))"
      by (auto simp: in_set_conv_nth intro!: exI [of _ "j - (len - 4)"])
    with assms(3) j show "buffer ! j AND 0xC0 = 0x80" by simp
  qed
  with assms(1,2) show ?thesis by (intro find_boundary_all_cont) auto
qed

text \<open>
  Claim C4, as amended. On every input, valid or not, the result is decided by
  the last lead byte of the chunk, the last byte within its final 4 bytes that
  is not a continuation byte, and by the continuation bytes after it:
  \<^item> the scanner returns the length exactly when the tail is complete (the
    chunk is empty, or its last lead byte is of a lead pattern and announces
    no more bytes than are there from it to the end);
  \<^item> when the last lead byte is an invalid lead byte, or starts a truncated
    sequence, the scanner returns the index of that byte, so the returned
    prefix leaves out the chunk's own invalid or incomplete last sequence;
  \<^item> when all of the final 4 bytes are continuation bytes, the scanner
    returns \<open>len - 4\<close> (0 for a shorter chunk);
  \<^item> two chunks of the same length that agree from the last lead byte on get
    the same result: the bytes before it are not looked at.
  The returned prefix is not examined again.
\<close>

theorem find_boundary_decided_by_last_lead:
  assumes "len \<le> length buffer"
  shows "(buf_simdutf_utf8_find_boundary buffer len = Some len \<longleftrightarrow>
            tail_complete (take len buffer)) \<and>
         (\<forall>i. last_lead_at (take len buffer) i \<and>
               (invalid_lead (buffer ! i) \<or> truncated_tail (take len buffer)) \<longrightarrow>
               buf_simdutf_utf8_find_boundary buffer len = Some i) \<and>
         (0 < len \<and> (\<forall>c \<in> set (drop (len - 4) (take len buffer)). c AND 0xC0 = 0x80) \<longrightarrow>
            buf_simdutf_utf8_find_boundary buffer len = Some (len - 4)) \<and>
         (\<forall>i buffer'. len \<le> length buffer' \<and> last_lead_at (take len buffer) i \<and>
               drop i (take len buffer') = drop i (take len buffer) \<longrightarrow>
               buf_simdutf_utf8_find_boundary buffer' len =
                 buf_simdutf_utf8_find_boundary buffer len)"
proof (intro conjI allI impI)
  show "buf_simdutf_utf8_find_boundary buffer len = Some len \<longleftrightarrow>
          tail_complete (take len buffer)"
    using assms by (rule find_boundary_full_iff)
next
  fix i
  assume "last_lead_at (take len buffer) i \<and>
            (invalid_lead (buffer ! i) \<or> truncated_tail (take len buffer))"
  with assms show "buf_simdutf_utf8_find_boundary buffer len = Some i"
    by (intro find_boundary_cut_at_last_lead) simp_all
next
  assume "0 < len \<and> (\<forall>c \<in> set (drop (len - 4) (take len buffer)). c AND 0xC0 = 0x80)"
  with assms show "buf_simdutf_utf8_find_boundary buffer len = Some (len - 4)"
    by (intro find_boundary_window_all_cont) simp_all
next
  fix i buffer'
  assume "len \<le> length buffer' \<and> last_lead_at (take len buffer) i \<and>
            drop i (take len buffer') = drop i (take len buffer)"
  with assms show "buf_simdutf_utf8_find_boundary buffer' len =
                     buf_simdutf_utf8_find_boundary buffer len"
    by (intro find_boundary_same_tail [of len buffer buffer' i]) simp_all
qed

theorem find_boundary_decided_by_last_lead_witness:
  "(4::nat) \<le> length [0xFF, 0xE2, 0x82, 0xAC :: byte] \<and>
   buf_simdutf_utf8_find_boundary [0xFF, 0xE2, 0x82, 0xAC] 4 = Some 4 \<and>
   tail_complete (take 4 [0xFF, 0xE2, 0x82, 0xAC]) \<and>
   (3::nat) \<le> length [0x61, 0xE2, 0x82 :: byte] \<and>
   last_lead_at (take 3 [0x61, 0xE2, 0x82]) 1 \<and>
   truncated_tail (take 3 [0x61, 0xE2, 0x82]) \<and>
   buf_simdutf_utf8_find_boundary [0x61, 0xE2, 0x82] 3 = Some 1 \<and>
   (3::nat) \<le> length [0xFF, 0xE2, 0x82 :: byte] \<and>
   drop 1 (take 3 [0xFF, 0xE2, 0x82 :: byte]) = drop 1 (take 3 [0x61, 0xE2, 0x82]) \<and>
   buf_simdutf_utf8_find_boundary [0xFF, 0xE2, 0x82] 3 =
     buf_simdutf_utf8_find_boundary [0x61, 0xE2, 0x82] 3 \<and>
   (0::nat) < 2 \<and> list_all (\<lambda>c. c AND 0xC0 = 0x80) (drop (2 - 4) (take 2 [0x80, 0xBF :: byte])) \<and>
   buf_simdutf_utf8_find_boundary [0x80, 0xBF] 2 = Some (2 - 4)"
proof -
  let ?full = "[0xFF, 0xE2, 0x82, 0xAC :: byte]"
  let ?cut = "[0x61, 0xE2, 0x82 :: byte]"
  let ?other = "[0xFF, 0xE2, 0x82 :: byte]"
  let ?conts = "[0x80, 0xBF :: byte]"
  have r: "buf_simdutf_utf8_find_boundary ?full 4 = Some 4"
    by (simp add: buf_simdutf_utf8_find_boundary_def byte_at_def scan_back.simps seq_len_def)
  have "(4::nat) \<le> length ?full" by simp
  from find_boundary_decided_by_last_lead [OF this] r
  have full: "tail_complete (take 4 ?full)" by simp
  have len3: "(3::nat) \<le> length ?cut" by simp
  have lead: "last_lead_at (take 3 ?cut) 1"
    by (simp add: last_lead_at_def)
  have trunc: "truncated_tail (take 3 ?cut)"
    unfolding truncated_tail_def
    by (rule bexI [of _ 1]) (simp_all add: last_lead_at_def seq_len_def)
  from find_boundary_decided_by_last_lead [OF len3] lead trunc
  have cut: "buf_simdutf_utf8_find_boundary ?cut 3 = Some 1" by blast
  have same: "drop 1 (take 3 ?other) = drop 1 (take 3 ?cut)" by simp
  have "(3::nat) \<le> length ?other" by simp
  with find_boundary_decided_by_last_lead [OF len3] lead same
  have other: "buf_simdutf_utf8_find_boundary ?other 3 = buf_simdutf_utf8_find_boundary ?cut 3"
    by blast
  have all_cont: "\<forall>c \<in> set (drop (2 - 4) (take 2 ?conts)). c AND 0xC0 = 0x80" by simp
  have "(2::nat) \<le> length ?conts" by simp
  from find_boundary_decided_by_last_lead [OF this] all_cont
  have conts: "buf_simdutf_utf8_find_boundary ?conts 2 = Some (2 - 4)" by simp
  from r full lead trunc cut same other conts show ?thesis by simp
qed

text \<open>
  Claim C4 as first stated, about the returned prefix, fails in both halves. On \<open>FF 61\<close> the fast path
  returns 2 although \<open>FF\<close>, an invalid lead byte, is among the last 4 bytes of
  the prefix. On \<open>C2 E2 82\<close> the scanner returns 1, and the prefix \<open>C2\<close> is a
  truncated 2-byte sequence.
\<close>

theorem tail_claim_counterexample:
  "buf_simdutf_utf8_find_boundary [0xFF, 0x61] 2 = Some 2 \<and>
   has_invalid_lead_in_tail (take 2 [0xFF, 0x61]) \<and>
   buf_simdutf_utf8_find_boundary [0xC2, 0xE2, 0x82] 3 = Some 1 \<and>
   truncated_tail (take 1 [0xC2, 0xE2, 0x82])"
proof -
  have "buf_simdutf_utf8_find_boundary [0xFF, 0x61] 2 = Some 2"
    by (simp add: buf_simdutf_utf8_find_boundary_def byte_at_def)
  moreover have "has_invalid_lead_in_tail (take 2 [0xFF, 0x61])"
    by (simp add: has_invalid_lead_in_tail_def invalid_lead_def seq_len_def)
  moreover have "buf_simdutf_utf8_find_boundary [0xC2, 0xE2, 0x82] 3 = Some 1"
    by (simp add: buf_simdutf_utf8_find_boundary_def byte_at_def scan_back.simps seq_len_def)
  moreover have "truncated_tail (take 1 [0xC2, 0xE2, 0x82])"
    by (simp add: truncated_tail_def last_lead_at_def seq_len_def)
  ultimately show ?thesis by simp
qed


section \<open>Transcoding and the size estimate\<close>

lemma length_encode_utf16: "length (encode_utf16 cp) = units_needed cp"
  by (simp add: encode_utf16_def units_needed_def Let_def)

lemma write_units_fits:
  assumes "pos + length us \<le> length out"
  shows "\<exists>out'. write_units us pos out = Some (pos + length us, out') \<and>
                    length out' = length out"
  using assms
proof (induction us arbitrary: pos out)
  case Nil
  then show ?case by simp
next
  case (Cons u us)
  then have "Suc pos + length us \<le> length (out[pos := u])" by simp
  from Cons.IH [OF this] Cons.prems show ?case by simp
qed

lemma convert_code_points_fits:
  assumes "pos + sum_list (map units_needed cps) \<le> length out"
  shows "\<exists>out'. convert_code_points cps pos out =
                      Some (pos + sum_list (map units_needed cps), out') \<and>
                    length out' = length out"
  using assms
proof (induction cps arbitrary: pos out)
  case Nil
  then show ?case by simp
next
  case (Cons cp cps)
  then have "pos + length (encode_utf16 cp) \<le> length out"
    by (simp add: length_encode_utf16)
  from write_units_fits [OF this] obtain out1
    where w: "write_units (encode_utf16 cp) pos out = Some (pos + units_needed cp, out1)"
      "length out1 = length out"
    by (auto simp: length_encode_utf16)
  with Cons.prems
  have "pos + units_needed cp + sum_list (map units_needed cps) \<le> length out1" by simp
  from Cons.IH [OF this] w show ?case by (simp add: add.assoc)
qed

lemma decode_euro: "decode_utf8 [0xE2, 0x82, 0xAC] = Some [0x20AC]"
  by (simp add: decode_one_def lead_length_def is_continuation_def
        legal_scalar_def min_scalar_def code_point_def lead_payload_def)

text \<open>
  Claim C9. On valid UTF-8 input and an output buffer of at least the
  estimated capacity, the transcoder reports as written exactly the number of
  code units the size estimator returns for the same input.
\<close>

theorem units_written_eq_estimate:
  assumes "len \<le> length input" "simdutf_validate_utf8 (take len input)"
    and "buf_simdutf_utf16_length_from_utf8 input len = Some n" "n \<le> length output"
  shows "\<exists>output'. buf_simdutf_convert_utf8_to_utf16le input len output = Some (n, output')"
proof -
  from assms(2) obtain cps where cps: "decode_utf8 (take len input) = Some cps"
    by (auto simp: simdutf_validate_utf8_def)
  with assms(1,3) have n: "n = sum_list (map units_needed cps)"
    by (simp add: buf_simdutf_utf16_length_from_utf8_def simdutf_utf16_length_from_utf8_def)
  with assms(4) have "0 + sum_list (map units_needed cps) \<le> length output" by simp
  from convert_code_points_fits [OF this] n cps assms(1) show ?thesis
    by (auto simp: buf_simdutf_convert_utf8_to_utf16le_def simdutf_convert_utf8_to_utf16le_def)
qed

theorem units_written_eq_estimate_witness:
  "(3::nat) \<le> length [0xE2, 0x82, 0xAC :: byte] \<and>
   simdutf_validate_utf8 (take 3 [0xE2, 0x82, 0xAC]) \<and>
   buf_simdutf_utf16_length_from_utf8 [0xE2, 0x82, 0xAC] 3 = Some 1 \<and>
   (1::nat) \<le> length [0 :: 16 word] \<and>
   (\<exists>output'. buf_simdutf_convert_utf8_to_utf16le [0xE2, 0x82, 0xAC] 3 [0] = Some (1, output'))"
proof -
  have v: "simdutf_validate_utf8 (take 3 [0xE2, 0x82, 0xAC])"
    by (simp add: simdutf_validate_utf8_def decode_euro del: decode_utf8.simps)
  have e: "buf_simdutf_utf16_length_from_utf8 [0xE2, 0x82, 0xAC] 3 = Some 1"
    by (simp add: buf_simdutf_utf16_length_from_utf8_def simdutf_utf16_length_from_utf8_def
        decode_euro units_needed_def del: decode_utf8.simps)
  have "\<exists>output'. buf_simdutf_convert_utf8_to_utf16le [0xE2, 0x82, 0xAC] 3 [0] = Some (1, output')"
    using v e by (intro units_written_eq_estimate) simp_all
  with v e show ?thesis by simp
qed

end
